theory Spec2Isabelle
  imports Main "HOL-Library.Sublist"
begin

section \<open>The notebook \<open>Add new ecoinvent version\<close>\<close>

text \<open>
  The source is one Jupyter notebook whose code cells run top to bottom.  Every cell is a
  short sequence of calls into external libraries (\<open>bw2data\<close>, \<open>bw2io\<close>,
  \<open>ecoinvent_interface\<close> and \<open>rower.updating\<close>).  The libraries are not part of the
  notebook, so they are parameters of the model: a record of functions over an arbitrary
  type \<open>'w\<close> of external worlds (project store, databases, file system, network).  The
  notebook itself is a state-and-exception computation that records every call it issues.
\<close>

subsection \<open>Python values and exceptions\<close>

text \<open>
  A field of a dataset is a Python object; the notebook only uses it through
  \<open>.lower()\<close>, which exists on \<open>str\<close> and raises \<open>AttributeError\<close> on anything else.
\<close>

datatype pyval = PyStr string | PyOther

text \<open>A dataset is dict-like: \<open>ds['location']\<close> raises \<open>KeyError\<close> on a missing key.\<close>

type_synonym dataset = "string \<rightharpoonup> pyval"

text \<open>The exception raised inside an external call, as an opaque description.\<close>

type_synonym external_exception = string

text \<open>
  What can abort the notebook: its own \<open>assert\<close>, a missing key or a missing method in
  the set comprehension, or an exception that comes out of an external call.
\<close>

datatype exn =
    AssertionError
  | KeyError string
  | AttributeError string
  | ExternalError external_exception

subsection \<open>\<open>str.lower\<close>\<close>

text \<open>
  A \<open>char\<close> stands for the code point of the same number (0 to 255).  On these code
  points Python's \<open>str.lower\<close> maps \<open>A\<close>..\<open>Z\<close> (65..90) and the upper-case letters
  of Latin-1 (192..222 without the multiplication sign 215) to the code point 32 above,
  and leaves every other code point as it is.
\<close>

definition lower_char :: "char \<Rightarrow> char" where
  "lower_char c =
     (let n = (of_char c :: nat)
      in if (65 \<le> n \<and> n \<le> 90) \<or> (192 \<le> n \<and> n \<le> 222 \<and> n \<noteq> 215)
         then char_of (n + 32) else c)"

definition lower :: "string \<Rightarrow> string" where
  "lower s = map lower_char s"

subsection \<open>The set comprehension of the verification cell\<close>

text \<open>
  \<^verbatim>\<open>locations = {ds['location'].lower() for ds in bd.Database(db_name)}\<close>

  The comprehension visits the datasets in order and stops at the first one whose
  \<open>'location'\<close> is missing or is not a string.
\<close>

fun locations_of :: "dataset list \<Rightarrow> exn + string set" where
  "locations_of [] = Inr {}"
| "locations_of (ds # rest) =
     (case ds ''location'' of
        None \<Rightarrow> Inl (KeyError ''location'')
      | Some PyOther \<Rightarrow> Inl (AttributeError ''lower'')
      | Some (PyStr s) \<Rightarrow>
          (case locations_of rest of
             Inl e \<Rightarrow> Inl e
           | Inr locations \<Rightarrow> Inr (insert (lower s) locations)))"

subsection \<open>The external libraries\<close>

text \<open>
  One field per external entry point the notebook uses.  A call that changes the world
  returns the new world, a call that only reads returns what it read; each may raise
  instead (\<open>Inl\<close>).  \<open>'s\<close> is the type of the settings object.

  \<^item> \<open>projects_contains\<close>: \<^verbatim>\<open>name in bd.projects\<close>
  \<^item> \<open>delete_project\<close>: \<^verbatim>\<open>bd.projects.delete_project(name, delete_dir)\<close>
  \<^item> \<open>set_current\<close>: \<^verbatim>\<open>bd.projects.set_current(name)\<close>
  \<^item> \<open>Settings\<close>: \<^verbatim>\<open>Settings()\<close>
  \<^item> \<open>EcoinventRelease\<close>: \<^verbatim>\<open>EcoinventRelease(settings)\<close>; the client object is bound
    to a variable that no later cell reads
  \<^item> \<open>import_ecoinvent_release\<close>: \<^verbatim>\<open>bi.import_ecoinvent_release(version=, system_model=, lcia=)\<close>
  \<^item> \<open>Database\<close>: iterating over \<^verbatim>\<open>bd.Database(name)\<close>
  \<^item> \<open>Database_len\<close>: \<^verbatim>\<open>len(bd.Database(name))\<close>
  \<^item> \<open>update_ecoinvent_definitions\<close>: \<^verbatim>\<open>update_ecoinvent_definitions(names)\<close>
\<close>

record ('w, 's) ext =
  projects_contains :: "string \<Rightarrow> 'w \<Rightarrow> external_exception + bool"
  delete_project :: "string \<Rightarrow> bool \<Rightarrow> 'w \<Rightarrow> external_exception + 'w"
  set_current :: "string \<Rightarrow> 'w \<Rightarrow> external_exception + 'w"
  Settings :: "'w \<Rightarrow> external_exception + 's"
  EcoinventRelease :: "'s \<Rightarrow> 'w \<Rightarrow> external_exception + 'w"
  import_ecoinvent_release :: "string \<Rightarrow> string \<Rightarrow> bool \<Rightarrow> 'w \<Rightarrow> external_exception + 'w"
  Database :: "string \<Rightarrow> 'w \<Rightarrow> external_exception + dataset list"
  Database_len :: "string \<Rightarrow> 'w \<Rightarrow> external_exception + nat"
  update_ecoinvent_definitions :: "string list \<Rightarrow> 'w \<Rightarrow> external_exception + 'w"

text \<open>The calls the notebook can issue, with their arguments.\<close>

datatype call =
    ProjectsContains string
  | DeleteProject string bool
  | SetCurrent string
  | MkSettings
  | MkEcoinventRelease
  | ImportEcoinventRelease string string bool
  | IterDatabase string
  | LenDatabase string
  | UpdateEcoinventDefinitions "string list"

subsection \<open>Running state\<close>

text \<open>
  \<open>world\<close> is the external world, \<open>calls\<close> the calls issued so far, oldest first,
  \<open>raised\<close> the calls that raised, with what they raised, and \<open>stdout\<close> the lines
  printed (each \<open>print\<close> of the notebook has three arguments).
\<close>

record 'w run =
  world :: 'w
  calls :: "call list"
  raised :: "(call \<times> external_exception) list"
  stdout :: "(string \<times> bool \<times> nat) list"

definition start :: "'w \<Rightarrow> 'w run" where
  "start w = \<lparr>world = w, calls = [], raised = [], stdout = []\<rparr>"

type_synonym ('w, 'a) prog = "'w run \<Rightarrow> (exn + 'a) \<times> 'w run"

text \<open>Statement sequencing: an exception skips everything after it.\<close>

definition bind :: "('w, 'a) prog \<Rightarrow> ('a \<Rightarrow> ('w, 'b) prog) \<Rightarrow> ('w, 'b) prog" where
  "bind p k st = (case p st of (Inl e, st') \<Rightarrow> (Inl e, st') | (Inr a, st') \<Rightarrow> k a st')"

definition seq :: "('w, unit) prog \<Rightarrow> ('w, 'b) prog \<Rightarrow> ('w, 'b) prog" where
  "seq p q = bind p (\<lambda>_. q)"

definition skip :: "('w, unit) prog" where
  "skip st = (Inr (), st)"

text \<open>A call that changes the world.\<close>

definition invoke :: "call \<Rightarrow> ('w \<Rightarrow> external_exception + 'w) \<Rightarrow> ('w, unit) prog" where
  "invoke c f st =
     (case f (world st) of
        Inl x \<Rightarrow> (Inl (ExternalError x),
                  st\<lparr>calls := calls st @ [c], raised := raised st @ [(c, x)]\<rparr>)
      | Inr w' \<Rightarrow> (Inr (), st\<lparr>world := w', calls := calls st @ [c]\<rparr>))"

text \<open>A call that reads from the world.\<close>

definition query :: "call \<Rightarrow> ('w \<Rightarrow> external_exception + 'a) \<Rightarrow> ('w, 'a) prog" where
  "query c f st =
     (case f (world st) of
        Inl x \<Rightarrow> (Inl (ExternalError x),
                  st\<lparr>calls := calls st @ [c], raised := raised st @ [(c, x)]\<rparr>)
      | Inr a \<Rightarrow> (Inr a, st\<lparr>calls := calls st @ [c]\<rparr>))"

text \<open>An expression of the notebook itself, which may raise.\<close>

definition expr :: "exn + 'a \<Rightarrow> ('w, 'a) prog" where
  "expr v st = (v, st)"

text \<open>\<^verbatim>\<open>assert b\<close>\<close>

definition assert :: "bool \<Rightarrow> ('w, unit) prog" where
  "assert b st = (if b then (Inr (), st) else (Inl AssertionError, st))"

text \<open>\<^verbatim>\<open>print(a, b, c)\<close>\<close>

definition print :: "string \<times> bool \<times> nat \<Rightarrow> ('w, unit) prog" where
  "print line st = (Inr (), st\<lparr>stdout := stdout st @ [line]\<rparr>)"

text \<open>\<^verbatim>\<open>for x in xs: body\<close>\<close>

fun for_each :: "'a list \<Rightarrow> ('a \<Rightarrow> ('w, unit) prog) \<Rightarrow> ('w, unit) prog" where
  "for_each [] body st = (Inr (), st)"
| "for_each (x # xs) body st =
     (case body x st of
        (Inl e, st') \<Rightarrow> (Inl e, st')
      | (Inr _, st') \<Rightarrow> for_each xs body st')"

subsection \<open>The cells\<close>

text \<open>\<^verbatim>\<open>delete = True\<close>\<close>

definition delete :: bool where
  "delete = True"

text \<open>
  \<^verbatim>\<open>if delete and "RoW generation" in bd.projects:
    bd.projects.delete_project("RoW generation", True)\<close>

  \<open>and\<close> evaluates its right operand only when the left one is true.  The flag is an
  argument here so that both of its values can be examined.
\<close>

definition cell_delete_project :: "('w, 's) ext \<Rightarrow> bool \<Rightarrow> ('w, unit) prog" where
  "cell_delete_project X d =
     (if d
      then bind (query (ProjectsContains ''RoW generation'')
                       (projects_contains X ''RoW generation''))
             (\<lambda>present.
                if present
                then invoke (DeleteProject ''RoW generation'' True)
                            (delete_project X ''RoW generation'' True)
                else skip)
      else skip)"

text \<open>\<^verbatim>\<open>bd.projects.set_current("RoW generation")\<close>\<close>

definition cell_set_current :: "('w, 's) ext \<Rightarrow> ('w, unit) prog" where
  "cell_set_current X =
     invoke (SetCurrent ''RoW generation'') (set_current X ''RoW generation'')"

text \<open>
  \<^verbatim>\<open>my_settings = Settings()
release = EcoinventRelease(my_settings)\<close>
\<close>

definition cell_release :: "('w, 's) ext \<Rightarrow> ('w, unit) prog" where
  "cell_release X =
     bind (query MkSettings (Settings X))
       (\<lambda>my_settings. invoke MkEcoinventRelease (EcoinventRelease X my_settings))"

text \<open>\<^verbatim>\<open>VERSION = "3.8"\<close>\<close>

definition VERSION :: string where
  "VERSION = ''3.8''"

text \<open>
  \<^verbatim>\<open>for system_model in ("cutoff", "apos", "consequential"):
    bi.import_ecoinvent_release(version=VERSION, system_model=system_model, lcia=False)\<close>
\<close>

definition cell_import :: "('w, 's) ext \<Rightarrow> ('w, unit) prog" where
  "cell_import X =
     for_each [''cutoff'', ''apos'', ''consequential'']
       (\<lambda>system_model.
          invoke (ImportEcoinventRelease VERSION system_model False)
                 (import_ecoinvent_release X VERSION system_model False))"

text \<open>
  \<^verbatim>\<open>for system_model in ("cutoff", "apos", "consequential"):
    db_name = f"ecoinvent-{VERSION}-{system_model}"
    locations = {ds['location'].lower() for ds in bd.Database(db_name)}
    assert locations
    print(db_name, 'roe' in locations, len(bd.Database(db_name)))\<close>

  An empty set is false in Python, so \<open>assert locations\<close> raises on the empty set.
\<close>

definition verify_body :: "('w, 's) ext \<Rightarrow> string \<Rightarrow> ('w, unit) prog" where
  "verify_body X system_model =
     (let db_name = ''ecoinvent-'' @ VERSION @ ''-'' @ system_model
      in bind (query (IterDatabase db_name) (Database X db_name))
           (\<lambda>datasets.
              bind (expr (locations_of datasets))
                (\<lambda>locations.
                   seq (assert (locations \<noteq> {}))
                     (bind (query (LenDatabase db_name) (Database_len X db_name))
                        (\<lambda>n. print (db_name, ''roe'' \<in> locations, n))))))"

definition cell_verify :: "('w, 's) ext \<Rightarrow> ('w, unit) prog" where
  "cell_verify X = for_each [''cutoff'', ''apos'', ''consequential''] (verify_body X)"

text \<open>
  \<^verbatim>\<open>update_ecoinvent_definitions([
    f'ecoinvent-{VERSION}-{system_model}'
    for system_model in ("cutoff", "apos", "consequential")
])\<close>
\<close>

definition cell_update :: "('w, 's) ext \<Rightarrow> ('w, unit) prog" where
  "cell_update X =
     (let names = map (\<lambda>system_model. ''ecoinvent-'' @ VERSION @ ''-'' @ system_model)
                      [''cutoff'', ''apos'', ''consequential'']
      in invoke (UpdateEcoinventDefinitions names) (update_ecoinvent_definitions X names))"

subsection \<open>The notebook\<close>

text \<open>The code cells in their order, with the value of \<open>delete\<close> as an argument.\<close>

definition notebook_with :: "bool \<Rightarrow> ('w, 's) ext \<Rightarrow> ('w, unit) prog" where
  "notebook_with d X =
     seq (cell_delete_project X d)
       (seq (cell_set_current X)
          (seq (cell_release X)
             (seq (cell_import X)
                (seq (cell_verify X)
                   (cell_update X)))))"

text \<open>A run of the notebook as it is, from a world \<open>w\<close>.\<close>

definition notebook :: "('w, 's) ext \<Rightarrow> 'w \<Rightarrow> (exn + unit) \<times> 'w run" where
  "notebook X w = notebook_with delete X (start w)"

section \<open>Vocabulary of the properties\<close>

text \<open>The calls a program issues when it is run from \<open>st\<close>.\<close>

definition issued :: "('w, 'a) prog \<Rightarrow> 'w run \<Rightarrow> call list" where
  "issued p st = drop (length (calls st)) (calls (snd (p st)))"

text \<open>The location set that the comprehension computes for a database in a world.\<close>

definition locations_in :: "('w, 's) ext \<Rightarrow> string \<Rightarrow> 'w \<Rightarrow> exn + string set" where
  "locations_in X db_name w =
     (case Database X db_name w of
        Inl x \<Rightarrow> Inl (ExternalError x)
      | Inr datasets \<Rightarrow> locations_of datasets)"


text \<open>The databases of the three system models.\<close>

definition database_names :: "string list" where
  "database_names =
     [''ecoinvent-3.8-cutoff'', ''ecoinvent-3.8-apos'', ''ecoinvent-3.8-consequential'']"

text \<open>The cells in front of the verification cell, and the world they leave behind.\<close>

definition cells_before_verify :: "bool \<Rightarrow> ('w, 's) ext \<Rightarrow> ('w, unit) prog" where
  "cells_before_verify d X =
     seq (cell_delete_project X d)
       (seq (cell_set_current X)
          (seq (cell_release X)
             (cell_import X)))"

definition world_at_verification :: "('w, 's) ext \<Rightarrow> 'w \<Rightarrow> 'w" where
  "world_at_verification X w = world (snd (cells_before_verify delete X (start w)))"

text \<open>
  The five stages of the notebook: project store, release client, import, verification,
  update of the region definitions.
\<close>

fun stage :: "call \<Rightarrow> nat" where
  "stage (ProjectsContains _) = 1"
| "stage (DeleteProject _ _) = 1"
| "stage (SetCurrent _) = 1"
| "stage MkSettings = 2"
| "stage MkEcoinventRelease = 2"
| "stage (ImportEcoinventRelease _ _ _) = 3"
| "stage (IterDatabase _) = 4"
| "stage (LenDatabase _) = 4"
| "stage (UpdateEcoinventDefinitions _) = 5"

text \<open>
  The calls of a complete run, stage by stage.  The flag of the first stage says whether
  the project store holds the project.
\<close>

definition project_calls :: "bool \<Rightarrow> call list" where
  "project_calls present =
     ProjectsContains ''RoW generation''
     # (if present then [DeleteProject ''RoW generation'' True] else [])
     @ [SetCurrent ''RoW generation'']"

definition release_calls :: "call list" where
  "release_calls = [MkSettings, MkEcoinventRelease]"

definition import_calls :: "call list" where
  "import_calls =
     [ImportEcoinventRelease ''3.8'' ''cutoff'' False,
      ImportEcoinventRelease ''3.8'' ''apos'' False,
      ImportEcoinventRelease ''3.8'' ''consequential'' False]"

definition verify_calls :: "call list" where
  "verify_calls =
     [IterDatabase ''ecoinvent-3.8-cutoff'', LenDatabase ''ecoinvent-3.8-cutoff'',
      IterDatabase ''ecoinvent-3.8-apos'', LenDatabase ''ecoinvent-3.8-apos'',
      IterDatabase ''ecoinvent-3.8-consequential'',
      LenDatabase ''ecoinvent-3.8-consequential'']"

definition update_calls :: "call list" where
  "update_calls =
     [UpdateEcoinventDefinitions
        [''ecoinvent-3.8-cutoff'', ''ecoinvent-3.8-apos'', ''ecoinvent-3.8-consequential'']]"

definition script_calls :: "bool \<Rightarrow> call list" where
  "script_calls present =
     project_calls present @ release_calls @ import_calls @ verify_calls @ update_calls"


fun is_update :: "call \<Rightarrow> bool" where
  "is_update (UpdateEcoinventDefinitions _) = True"
| "is_update _ = False"



text \<open>
  A program issues at most the calls \<open>cs\<close>, in their order, and all of them when it
  returns normally.
\<close>

definition emits_at :: "('w, 'a) prog \<Rightarrow> 'w run \<Rightarrow> call list \<Rightarrow> bool" where
  "emits_at p st cs \<longleftrightarrow>
     (\<exists>n. calls (snd (p st)) = calls st @ take n cs) \<and>
     ((\<exists>a. fst (p st) = Inr a) \<longrightarrow> calls (snd (p st)) = calls st @ cs)"


section \<open>An example world\<close>

text \<open>
  A small world on which the model can be evaluated: a project store and the databases
  of the current project.  Every import adds a database with the datasets \<open>content\<close>;
  deleting an unknown project is an error.
\<close>

record store =
  projects :: "string list"
  current :: "string option"
  databases :: "(string \<times> dataset list) list"

definition example_ext :: "dataset list \<Rightarrow> (store, unit) ext" where
  "example_ext content =
     \<lparr>projects_contains = (\<lambda>name w. Inr (name \<in> set (projects w))),
      delete_project = (\<lambda>name delete_dir w.
         if name \<in> set (projects w)
         then Inr (w\<lparr>projects := removeAll name (projects w), databases := []\<rparr>)
         else Inl ''ValueError''),
      set_current = (\<lambda>name w.
         Inr (w\<lparr>projects := (if name \<in> set (projects w) then projects w
                               else name # projects w),
                current := Some name\<rparr>)),
      Settings = (\<lambda>w. Inr ()),
      EcoinventRelease = (\<lambda>s w. Inr w),
      import_ecoinvent_release = (\<lambda>version system_model lcia w.
         Inr (w\<lparr>databases :=
                  (''ecoinvent-'' @ version @ ''-'' @ system_model, content) # databases w\<rparr>)),
      Database = (\<lambda>name w.
         case map_of (databases w) name of
           None \<Rightarrow> Inl ''UnknownObject''
         | Some datasets \<Rightarrow> Inr datasets),
      Database_len = (\<lambda>name w.
         case map_of (databases w) name of
           None \<Rightarrow> Inl ''UnknownObject''
         | Some datasets \<Rightarrow> Inr (length datasets)),
      update_ecoinvent_definitions = (\<lambda>names w. Inr w)\<rparr>"

definition fresh_store :: store where
  "fresh_store = \<lparr>projects = [''default''], current = Some ''default'', databases = []\<rparr>"

definition used_store :: store where
  "used_store =
     \<lparr>projects = [''default'', ''RoW generation''], current = Some ''default'',
      databases = []\<rparr>"

definition glo :: dataset where
  "glo = [''location'' \<mapsto> PyStr ''GLO'']"

definition row :: dataset where
  "row = [''location'' \<mapsto> PyStr ''RoW'']"

text \<open>The store after the three imports, with \<open>content\<close> in each database.\<close>

definition loaded_store :: "dataset list \<Rightarrow> store" where
  "loaded_store content =
     \<lparr>projects = [''RoW generation'', ''default''], current = Some ''RoW generation'',
      databases =
        [(''ecoinvent-3.8-consequential'', content), (''ecoinvent-3.8-apos'', content),
         (''ecoinvent-3.8-cutoff'', content)]\<rparr>"


section \<open>Properties\<close>

subsection \<open>Lower-casing\<close>

lemma lower_char_idem: "lower_char (lower_char c) = lower_char c"
proof -
  define n where "n = (of_char c :: nat)"
  have "n < 256" unfolding n_def by (simp add: of_char_def)
  show ?thesis
  proof (cases "(65 \<le> n \<and> n \<le> 90) \<or> (192 \<le> n \<and> n \<le> 222 \<and> n \<noteq> 215)")
    case True
    then have l: "lower_char c = char_of (n + 32)"
      by (simp add: lower_char_def n_def Let_def)
    from True have "(of_char (char_of (n + 32) :: char) :: nat) = n + 32"
      by auto
    with True have "lower_char (char_of (n + 32)) = char_of (n + 32)"
      by (auto simp add: lower_char_def Let_def)
    with l show ?thesis by simp
  next
    case False
    then have "lower_char c = c"
      by (auto simp add: lower_char_def n_def Let_def)
    then show ?thesis by simp
  qed
qed

lemma lower_idem: "lower (lower s) = lower s"
  by (simp add: lower_def lower_char_idem)

subsection \<open>The calls a program issues\<close>

lemmas prog_defs = bind_def seq_def skip_def invoke_def query_def expr_def assert_def print_def

lemma emits_at_invoke: "emits_at (invoke c f) st [c]"
  unfolding emits_at_def invoke_def
  by (cases "f (world st)") (auto intro: exI[of _ "Suc 0"])

lemma emits_at_query: "emits_at (query c f) st [c]"
  unfolding emits_at_def query_def
  by (cases "f (world st)") (auto intro: exI[of _ "Suc 0"])

lemma emits_at_silent:
  "emits_at (expr v) st []" "emits_at (assert b) st []" "emits_at (print l) st []"
  "emits_at skip st []"
  by (simp_all add: emits_at_def expr_def assert_def print_def skip_def)

lemma emits_at_bind:
  assumes p: "emits_at p st cs"
    and k: "\<And>a. fst (p st) = Inr a \<Longrightarrow> emits_at (k a) (snd (p st)) ds"
  shows "emits_at (bind p k) st (cs @ ds)"
proof (cases "fst (p st)")
  case (Inl e)
  obtain n where n: "calls (snd (p st)) = calls st @ take n cs"
    using p by (auto simp: emits_at_def)
  have b: "bind p k st = (Inl e, snd (p st))"
    using Inl by (cases "p st") (simp add: bind_def)
  have "take n cs = take (min n (length cs)) (cs @ ds)" by (simp add: min_def)
  with n b show ?thesis
    unfolding emits_at_def by (metis fst_conv snd_conv sum.distinct(1))
next
  case (Inr a)
  have full: "calls (snd (p st)) = calls st @ cs"
    using p Inr by (auto simp: emits_at_def)
  have b: "bind p k st = k a (snd (p st))"
    using Inr by (cases "p st") (simp add: bind_def)
  have kk: "emits_at (k a) (snd (p st)) ds" by (rule k[OF Inr])
  have fin: "(\<exists>r. fst (k a (snd (p st))) = Inr r) \<longrightarrow>
               calls (snd (k a (snd (p st)))) = calls (snd (p st)) @ ds"
    using kk by (simp add: emits_at_def)
  have "\<exists>m. calls (snd (k a (snd (p st)))) = calls (snd (p st)) @ take m ds"
    using kk by (simp add: emits_at_def)
  then obtain m where m: "calls (snd (k a (snd (p st)))) = calls (snd (p st)) @ take m ds" ..
  have "calls (snd (bind p k st)) = calls st @ cs @ take m ds"
    using m full by (simp add: b)
  then have "calls (snd (bind p k st)) = calls st @ take (length cs + m) (cs @ ds)"
    by simp
  moreover have "(\<exists>r. fst (bind p k st) = Inr r) \<longrightarrow> calls (snd (bind p k st)) = calls st @ cs @ ds"
    using fin full by (simp add: b)
  ultimately show ?thesis unfolding emits_at_def by blast
qed

lemma emits_at_seq:
  assumes "emits_at p st cs" and "fst (p st) = Inr () \<Longrightarrow> emits_at q (snd (p st)) ds"
  shows "emits_at (seq p q) st (cs @ ds)"
  unfolding seq_def using assms by (intro emits_at_bind) auto

lemma for_each_as_seq: "for_each (x # xs) body = seq (body x) (for_each xs body)"
  by (rule ext) (simp add: seq_def bind_def split: prod.splits sum.splits)

lemma for_each_Nil: "for_each [] body = skip"
  by (rule ext) (simp add: skip_def)

lemma emits_at_for_each:
  assumes "\<And>x st. x \<in> set xs \<Longrightarrow> emits_at (body x) st (f x)"
  shows "emits_at (for_each xs body) st (concat (map f xs))"
  using assms
proof (induction xs arbitrary: st)
  case Nil
  show ?case by (simp add: for_each_Nil emits_at_silent)
next
  case (Cons x xs)
  show ?case
    unfolding for_each_as_seq using Cons by (simp add: emits_at_seq)
qed

lemma emits_cell_delete_project:
  "emits_at (cell_delete_project X True) st
     (ProjectsContains ''RoW generation''
      # (if projects_contains X ''RoW generation'' (world st) = Inr True
         then [DeleteProject ''RoW generation'' True] else []))"
proof -
  let ?q = "query (ProjectsContains ''RoW generation'')
                       (projects_contains X ''RoW generation'')"
  have w: "world (snd (?q st)) = world st"
    by (simp add: query_def split: sum.splits)
  have r: "fst (?q st) = Inr a \<longleftrightarrow> projects_contains X ''RoW generation'' (world st) = Inr a" for a
    by (simp add: query_def split: sum.splits)
  have "emits_at (bind ?q (\<lambda>present.
                if present
                then invoke (DeleteProject ''RoW generation'' True)
                            (delete_project X ''RoW generation'' True)
                else skip)) st ([ProjectsContains ''RoW generation''] @ (if projects_contains X ''RoW generation'' (world st) = Inr True
         then [DeleteProject ''RoW generation'' True] else []))"
    by (rule emits_at_bind[OF emits_at_query]) (auto simp: r emits_at_invoke emits_at_silent)
  then show ?thesis by (simp add: cell_delete_project_def)
qed

lemma emits_cell_set_current: "emits_at (cell_set_current X) st [SetCurrent ''RoW generation'']"
  by (simp add: cell_set_current_def emits_at_invoke)

lemma emits_cell_release: "emits_at (cell_release X) st release_calls"
proof -
  have "emits_at (cell_release X) st ([MkSettings] @ [MkEcoinventRelease])"
    unfolding cell_release_def
    by (rule emits_at_bind[OF emits_at_query]) (rule emits_at_invoke)
  then show ?thesis by (simp add: release_calls_def)
qed

lemma emits_cell_import: "emits_at (cell_import X) st import_calls"
proof -
  have "emits_at (cell_import X) st
     (concat (map (\<lambda>m. [ImportEcoinventRelease VERSION m False]) [''cutoff'', ''apos'', ''consequential'']))"
    unfolding cell_import_def by (rule emits_at_for_each) (rule emits_at_invoke)
  then show ?thesis by (simp add: import_calls_def VERSION_def)
qed

lemma emits_verify_body:
  "emits_at (verify_body X m) st
     [IterDatabase (''ecoinvent-'' @ VERSION @ ''-'' @ m), LenDatabase (''ecoinvent-'' @ VERSION @ ''-'' @ m)]"
proof -
  let ?n = "''ecoinvent-'' @ VERSION @ ''-'' @ m"
  have "emits_at (verify_body X m) st ([IterDatabase ?n] @ [] @ [] @ [LenDatabase ?n] @ [])"
    unfolding verify_body_def Let_def
    by (intro emits_at_bind emits_at_seq emits_at_query emits_at_silent)
  then show ?thesis by simp
qed

lemma emits_cell_verify: "emits_at (cell_verify X) st verify_calls"
proof -
  have "emits_at (cell_verify X) st
     (concat (map (\<lambda>m. [IterDatabase (''ecoinvent-'' @ VERSION @ ''-'' @ m), LenDatabase (''ecoinvent-'' @ VERSION @ ''-'' @ m)]) [''cutoff'', ''apos'', ''consequential'']))"
    unfolding cell_verify_def by (rule emits_at_for_each) (rule emits_verify_body)
  then show ?thesis by (simp add: verify_calls_def VERSION_def)
qed

lemma emits_cell_update: "emits_at (cell_update X) st update_calls"
  by (simp add: cell_update_def update_calls_def VERSION_def Let_def emits_at_invoke)

lemma emits_cells_before_verify:
  "emits_at (cells_before_verify True X) st
     (project_calls (projects_contains X ''RoW generation'' (world st) = Inr True)
      @ release_calls @ import_calls)"
proof -
  let ?del = "ProjectsContains ''RoW generation''
      # (if projects_contains X ''RoW generation'' (world st) = Inr True
         then [DeleteProject ''RoW generation'' True] else [])"
  have "emits_at (cells_before_verify True X) st
          (?del @ [SetCurrent ''RoW generation''] @ release_calls @ import_calls)"
    unfolding cells_before_verify_def
    by (intro emits_at_seq emits_cell_delete_project emits_cell_set_current
          emits_cell_release emits_cell_import)
  then show ?thesis by (simp add: project_calls_def)
qed

lemma bind_assoc: "bind (bind p k) h = bind p (\<lambda>a. bind (k a) h)"
  by (rule ext) (simp add: bind_def split: prod.splits sum.splits)

lemma seq_assoc: "seq (seq p q) r = seq p (seq q r)"
  by (simp add: seq_def bind_assoc)

lemma notebook_with_split:
  "notebook_with d X = seq (cells_before_verify d X) (seq (cell_verify X) (cell_update X))"
  by (simp add: notebook_with_def cells_before_verify_def seq_assoc)

lemma emits_notebook_with:
  "emits_at (notebook_with True X) st
     (script_calls (projects_contains X ''RoW generation'' (world st) = Inr True))"
proof -
  let ?b = "projects_contains X ''RoW generation'' (world st) = Inr True"
  have "emits_at (notebook_with True X) st
          ((project_calls ?b @ release_calls @ import_calls) @ verify_calls @ update_calls)"
    unfolding notebook_with_split
    by (intro emits_at_seq emits_cells_before_verify emits_cell_verify emits_cell_update)
  then show ?thesis by (simp add: script_calls_def)
qed

lemma notebook_calls:
  "\<exists>n. calls (snd (notebook X w)) =
         take n (script_calls (projects_contains X ''RoW generation'' w = Inr True))"
  using emits_notebook_with[of X "start w"]
  by (simp add: emits_at_def notebook_def delete_def start_def)


subsection \<open>What the verification cell does\<close>

lemma verify_body_world: "world (snd (verify_body X m st)) = world st"
  by (simp add: verify_body_def Let_def prog_defs split: sum.splits)

lemma verify_body_result:
  "fst (verify_body X m st) =
     (case locations_in X (''ecoinvent-'' @ VERSION @ ''-'' @ m) (world st) of
        Inl e \<Rightarrow> Inl e
      | Inr locations \<Rightarrow>
          if locations = {} then Inl AssertionError
          else (case Database_len X (''ecoinvent-'' @ VERSION @ ''-'' @ m) (world st) of
                  Inl x \<Rightarrow> Inl (ExternalError x)
                | Inr n \<Rightarrow> Inr ()))"
  by (simp add: verify_body_def locations_in_def Let_def prog_defs split: sum.splits)

lemma for_each_world:
  assumes "\<And>x st. world (snd (body x st)) = world st"
  shows "world (snd (for_each xs body st)) = world st"
  by (induction xs arbitrary: st) (auto simp: assms split: prod.splits sum.splits dest: arg_cong[where f="\<lambda>r. world (snd r)"])

lemma cell_verify_world: "world (snd (cell_verify X st)) = world st"
  unfolding cell_verify_def by (rule for_each_world) (rule verify_body_world)

subsection \<open>Failures of external calls\<close>



















lemmas model_defs =
  notebook_def notebook_with_def cell_delete_project_def cell_set_current_def
  cell_release_def cell_import_def cell_verify_def verify_body_def cell_update_def
  start_def delete_def VERSION_def Let_def

lemmas example_defs =
  example_ext_def fresh_store_def used_store_def glo_def row_def lower_def lower_char_def

lemmas script_defs =
  script_calls_def project_calls_def release_calls_def import_calls_def verify_calls_def
  update_calls_def

subsection \<open>Runs of the whole notebook\<close>




lemma is_update_stage: "is_update = (\<lambda>c. stage c = 5)"
proof
  fix c show "is_update c = (stage c = 5)" by (cases c) simp_all
qed


lemma notebook_prefix:
  "prefix (calls (snd (notebook X w)))
          (script_calls (projects_contains X ''RoW generation'' w = Inr True))"
  using notebook_calls[of X w] by (auto simp: take_is_prefix)






lemma lower_in_locations:
  assumes "locations_of datasets = Inr locations"
  shows "locations = {lower s |s ds. ds \<in> set datasets \<and> ds ''location'' = Some (PyStr s)}
         \<and> (\<forall>ds\<in>set datasets. \<exists>s. ds ''location'' = Some (PyStr s))"
  using assms
proof (induction datasets arbitrary: locations)
  case Nil
  then show ?case by simp
next
  case (Cons ds rest)
  from Cons.prems obtain s rest_locations where
    s: "ds ''location'' = Some (PyStr s)" and
    r: "locations_of rest = Inr rest_locations" and
    l: "locations = insert (lower s) rest_locations"
    by (auto split: option.splits pyval.splits sum.splits)
  from Cons.IH[OF r] have
    ih1: "rest_locations = {lower s |s ds. ds \<in> set rest \<and> ds ''location'' = Some (PyStr s)}"
    and ih2: "\<forall>ds\<in>set rest. \<exists>s. ds ''location'' = Some (PyStr s)"
    by blast+
  have "locations = {lower s |s d. d \<in> set (ds # rest) \<and> d ''location'' = Some (PyStr s)}"
    unfolding l ih1 using s by auto
  moreover have "\<forall>d\<in>set (ds # rest). \<exists>s. d ''location'' = Some (PyStr s)"
    using s ih2 by simp
  ultimately show ?case by blast
qed

subsection \<open>The project stage\<close>






lemma delete_in_script:
  "DeleteProject n f \<in> set (script_calls b) \<Longrightarrow> b \<and> n = ''RoW generation'' \<and> f"
  by (auto simp: script_defs split: if_splits)

subsection \<open>Loops over a world that the body leaves unchanged\<close>

lemma for_each_ok_iff:
  assumes w: "\<And>x st. world (snd (body x st)) = world st"
    and g: "\<And>x st. fst (body x st) = g x (world st)"
  shows "fst (for_each xs body st) = Inr () \<longleftrightarrow> (\<forall>x\<in>set xs. g x (world st) = Inr ())"
proof (induction xs arbitrary: st)
  case Nil
  show ?case by simp
next
  case (Cons x xs)
  obtain r st' where b: "body x st = (r, st')" by (cases "body x st")
  have r: "g x (world st) = r" using g[of x st] b by simp
  have st': "world st' = world st" using w[of x st] b by simp
  show ?case
  proof (cases r)
    case (Inl e)
    with b r show ?thesis by auto
  next
    case (Inr u)
    with b r Cons.IH[of st'] st' show ?thesis by auto
  qed
qed


text \<open>The outcome of one round of the verification loop, from the world alone.\<close>

lemma cell_verify_ok_iff:
  "fst (cell_verify X st) = Inr () \<longleftrightarrow>
     (\<forall>name\<in>set database_names.
        (\<exists>locations. locations_in X name (world st) = Inr locations \<and> locations \<noteq> {})
        \<and> (\<exists>n. Database_len X name (world st) = Inr n))"
proof -
  let ?g = "\<lambda>m v. case locations_in X (''ecoinvent-'' @ VERSION @ ''-'' @ m) v of
        Inl e \<Rightarrow> Inl e
      | Inr locations \<Rightarrow>
          if locations = {} then Inl AssertionError
          else (case Database_len X (''ecoinvent-'' @ VERSION @ ''-'' @ m) v of
                  Inl x \<Rightarrow> Inl (ExternalError x)
                | Inr n \<Rightarrow> Inr ())"
  have "fst (cell_verify X st) = Inr () \<longleftrightarrow>
          (\<forall>m\<in>set [''cutoff'', ''apos'', ''consequential'']. ?g m (world st) = Inr ())"
    unfolding cell_verify_def
    by (rule for_each_ok_iff[where g = ?g]) (rule verify_body_world, rule verify_body_result)
  then show ?thesis
    by (simp add: database_names_def VERSION_def split: sum.splits if_splits)
qed



lemma issued_of_emits:
  assumes "emits_at p st cs"
  shows "\<exists>n. issued p st = take n cs" and "calls (snd (p st)) = calls st @ issued p st"
    and "fst (p st) = Inr a \<Longrightarrow> issued p st = cs"
  using assms by (auto simp: emits_at_def issued_def)

lemma no_update_in_take:
  "UpdateEcoinventDefinitions a \<notin> set (take n verify_calls)"
  "UpdateEcoinventDefinitions a
     \<notin> set (take n (project_calls b @ release_calls @ import_calls))"
proof -
  have "UpdateEcoinventDefinitions a \<notin> set verify_calls"
    "UpdateEcoinventDefinitions a \<notin> set (project_calls b @ release_calls @ import_calls)"
    by (simp_all add: script_defs)
  then show "UpdateEcoinventDefinitions a \<notin> set (take n verify_calls)"
    "UpdateEcoinventDefinitions a
       \<notin> set (take n (project_calls b @ release_calls @ import_calls))"
    by (meson in_set_takeD)+
qed

lemma seq_aborts:
  "fst (p st) = Inl e \<Longrightarrow> seq p q st = (Inl e, snd (p st))"
  by (cases "p st") (simp add: seq_def bind_def)

lemma seq_continues:
  "fst (p st) = Inr () \<Longrightarrow> seq p q st = q (snd (p st))"
  by (cases "p st") (simp add: seq_def bind_def)

lemma failed_verification_stops:
  assumes "fst (cell_verify X st) \<noteq> Inr ()"
  shows "fst (seq (cell_verify X) (cell_update X) st) \<noteq> Inr ()"
    and "UpdateEcoinventDefinitions a
           \<notin> set (issued (seq (cell_verify X) (cell_update X)) st)"
proof -
  from assms obtain e where e: "fst (cell_verify X st) = Inl e"
    by (cases "fst (cell_verify X st)") auto
  have s: "seq (cell_verify X) (cell_update X) st = (Inl e, snd (cell_verify X st))"
    using e by (rule seq_aborts[where p = "cell_verify X"])
  show "fst (seq (cell_verify X) (cell_update X) st) \<noteq> Inr ()"
    by (simp add: s)
  have "issued (seq (cell_verify X) (cell_update X)) st = issued (cell_verify X) st"
    by (simp add: issued_def s)
  moreover obtain n where "issued (cell_verify X) st = take n verify_calls"
    using issued_of_emits(1)[OF emits_cell_verify] by blast
  ultimately show "UpdateEcoinventDefinitions a
           \<notin> set (issued (seq (cell_verify X) (cell_update X)) st)"
    by (simp add: no_update_in_take)
qed

lemma failed_verification_stops_notebook:
  assumes "fst (cell_verify X (snd (cells_before_verify delete X (start w)))) \<noteq> Inr ()"
  shows "fst (notebook X w) \<noteq> Inr ()"
    and "UpdateEcoinventDefinitions a \<notin> set (calls (snd (notebook X w)))"
proof -
  let ?before = "cells_before_verify delete X"
  let ?rest = "seq (cell_verify X) (cell_update X)"
  let ?st = "snd (?before (start w))"
  let ?front = "project_calls (projects_contains X ''RoW generation'' w = Inr True)
                @ release_calls @ import_calls"
  have nb: "notebook X w = seq ?before ?rest (start w)"
    by (simp add: notebook_def notebook_with_split)
  have em: "emits_at ?before (start w) ?front"
    using emits_cells_before_verify[of X "start w"] by (simp add: delete_def start_def)
  then obtain n where n: "calls ?st = take n ?front"
    by (auto simp: emits_at_def start_def)
  have front: "UpdateEcoinventDefinitions a \<notin> set (calls ?st)"
    unfolding n by (rule no_update_in_take)
  have "fst (notebook X w) \<noteq> Inr ()
        \<and> UpdateEcoinventDefinitions a \<notin> set (calls (snd (notebook X w)))"
  proof (cases "fst (?before (start w))")
    case (Inl e)
    then have "notebook X w = (Inl e, ?st)"
      unfolding nb by (rule seq_aborts[where p = "?before"])
    with front show ?thesis by simp
  next
    case (Inr u)
    then have r: "notebook X w = ?rest ?st"
      unfolding nb by (simp add: seq_continues)
    have "emits_at ?rest ?st (verify_calls @ update_calls)"
      by (intro emits_at_seq emits_cell_verify emits_cell_update)
    then have "calls (snd (?rest ?st)) = calls ?st @ issued ?rest ?st"
      by (rule issued_of_emits(2))
    with front failed_verification_stops[OF assms] show ?thesis
      by (simp add: r)
  qed
  then show "fst (notebook X w) \<noteq> Inr ()"
    and "UpdateEcoinventDefinitions a \<notin> set (calls (snd (notebook X w)))"
    by blast+
qed

lemma empty_locations_fail_verification:
  assumes "name \<in> set database_names" and "locations_in X name (world st) = Inr {}"
  shows "fst (cell_verify X st) \<noteq> Inr ()"
  using assms cell_verify_ok_iff[of X st] by force



section \<open>The specified properties\<close>









text \<open>
  \<^bold>\<open>C7.\<close>  When the set comprehension of the verification cell returns a set, this set
  is the set of the lower-cased \<open>'location'\<close> strings of the datasets it has read, and
  \<open>lower\<close> leaves every element of the set as it is.
\<close>

theorem locations_are_lowercased:
  assumes "locations_of datasets = Inr locations"
  shows "locations = {lower s |s ds. ds \<in> set datasets \<and> ds ''location'' = Some (PyStr s)}
         \<and> (\<forall>t\<in>locations. lower t = t)"
proof -
  have eq: "locations = {lower s |s ds. ds \<in> set datasets \<and> ds ''location'' = Some (PyStr s)}"
    using lower_in_locations[OF assms] by blast
  have "lower t = t" if "t \<in> locations" for t
  proof -
    from that eq obtain s where "t = lower s" by blast
    then show ?thesis by (simp add: lower_idem)
  qed
  with eq show ?thesis by blast
qed

theorem locations_are_lowercased_witness:
  "locations_of [glo, row, glo] = Inr {''glo'', ''row''}
   \<and> {''glo'', ''row''} =
       {lower s |s ds. ds \<in> set [glo, row, glo] \<and> ds ''location'' = Some (PyStr s)}
   \<and> lower ''glo'' = ''glo'' \<and> lower ''row'' = ''row''"
proof -
  have l: "lower ''GLO'' = ''glo''" "lower ''RoW'' = ''row''"
    by code_simp+
  have h: "locations_of [glo, row, glo] = Inr {''glo'', ''row''}"
    by (simp add: glo_def row_def l insert_commute)
  note t = locations_are_lowercased[OF h]
  have "lower ''glo'' = ''glo''" "lower ''row'' = ''row''"
    using conjunct2[OF t] by simp_all
  with h conjunct1[OF t] show ?thesis by simp
qed




text \<open>
  \<^bold>\<open>C8.\<close>  \<open>delete_project\<close> is called only when \<open>delete\<close> is true and the project
  store holds \<open>RoW generation\<close>, on the very world in which the membership test was
  made, and only with the arguments \<open>("RoW generation", True)\<close>.  When \<open>delete\<close> is false
  or the store does not hold the project, the next call after the membership test (which
  is skipped when \<open>delete\<close> is false) is \<open>set_current\<close>.
\<close>

theorem delete_only_when_present:
  "(DeleteProject n f \<in> set (issued (cell_delete_project X d) st) \<longrightarrow>
      d \<and> projects_contains X ''RoW generation'' (world st) = Inr True
      \<and> n = ''RoW generation'' \<and> f)
   \<and> (d \<and> projects_contains X ''RoW generation'' (world st) = Inr True \<longrightarrow>
        cell_delete_project X d st =
          invoke (DeleteProject ''RoW generation'' True)
                 (delete_project X ''RoW generation'' True)
                 (st\<lparr>calls := calls st @ [ProjectsContains ''RoW generation'']\<rparr>))
   \<and> (\<not> d \<or> projects_contains X ''RoW generation'' (world st) = Inr False \<longrightarrow>
        issued (seq (cell_delete_project X d) (cell_set_current X)) st =
          (if d then [ProjectsContains ''RoW generation''] else [])
          @ [SetCurrent ''RoW generation''])
   \<and> (DeleteProject n f \<in> set (calls (snd (notebook X w))) \<longrightarrow>
        delete \<and> projects_contains X ''RoW generation'' w = Inr True)"
proof -
  have 1: "d \<and> projects_contains X ''RoW generation'' (world st) = Inr True
           \<and> n = ''RoW generation'' \<and> f"
    if "DeleteProject n f \<in> set (issued (cell_delete_project X d) st)"
    using that
    by (auto simp: issued_def cell_delete_project_def prog_defs split: sum.splits if_splits)
  have 2: "cell_delete_project X d st =
          invoke (DeleteProject ''RoW generation'' True)
                 (delete_project X ''RoW generation'' True)
                 (st\<lparr>calls := calls st @ [ProjectsContains ''RoW generation'']\<rparr>)"
    if "d \<and> projects_contains X ''RoW generation'' (world st) = Inr True"
    using that by (simp add: cell_delete_project_def prog_defs)
  have 3: "issued (seq (cell_delete_project X d) (cell_set_current X)) st =
          (if d then [ProjectsContains ''RoW generation''] else [])
          @ [SetCurrent ''RoW generation'']"
    if "\<not> d \<or> projects_contains X ''RoW generation'' (world st) = Inr False"
    using that
    by (auto simp: issued_def cell_delete_project_def cell_set_current_def prog_defs
          split: sum.splits)
  have 4: "delete \<and> projects_contains X ''RoW generation'' w = Inr True"
    if "DeleteProject n f \<in> set (calls (snd (notebook X w)))"
  proof -
    from that notebook_prefix[of X w]
    have "DeleteProject n f
            \<in> set (script_calls (projects_contains X ''RoW generation'' w = Inr True))"
      using set_mono_prefix by blast
    then show ?thesis by (auto dest: delete_in_script simp: delete_def)
  qed
  from 1 2 3 4 show ?thesis by blast
qed

theorem delete_only_when_present_witness:
  "DeleteProject ''RoW generation'' True
     \<in> set (issued (cell_delete_project (example_ext [glo]) True) (start used_store))
   \<and> projects_contains (example_ext [glo]) ''RoW generation'' (world (start used_store))
       = Inr True
   \<and> cell_delete_project (example_ext [glo]) True (start used_store) =
       invoke (DeleteProject ''RoW generation'' True)
              (delete_project (example_ext [glo]) ''RoW generation'' True)
              ((start used_store)
                 \<lparr>calls := calls (start used_store) @ [ProjectsContains ''RoW generation'']\<rparr>)
   \<and> projects_contains (example_ext [glo]) ''RoW generation'' (world (start fresh_store))
       = Inr False
   \<and> issued (seq (cell_delete_project (example_ext [glo]) True)
                  (cell_set_current (example_ext [glo]))) (start fresh_store) =
       [ProjectsContains ''RoW generation'', SetCurrent ''RoW generation'']
   \<and> issued (seq (cell_delete_project (example_ext [glo]) False)
                  (cell_set_current (example_ext [glo]))) (start used_store) =
       [SetCurrent ''RoW generation'']
   \<and> DeleteProject ''RoW generation'' True
       \<in> set (calls (snd (notebook (example_ext [glo]) used_store)))
   \<and> delete
   \<and> projects_contains (example_ext [glo]) ''RoW generation'' used_store = Inr True"
proof -
  have a: "DeleteProject ''RoW generation'' True
     \<in> set (issued (cell_delete_project (example_ext [glo]) True) (start used_store))"
    by (simp add: issued_def model_defs prog_defs example_defs)
  have b: "projects_contains (example_ext [glo]) ''RoW generation'' (world (start fresh_store))
       = Inr False"
    by (simp add: start_def example_defs)
  have c: "DeleteProject ''RoW generation'' True
       \<in> set (calls (snd (notebook (example_ext [glo]) used_store)))"
    by (simp add: model_defs prog_defs example_defs)
  show ?thesis
    using a b c
      delete_only_when_present[of "''RoW generation''" True "example_ext [glo]" True
        "start used_store" used_store]
      delete_only_when_present[of "''RoW generation''" True "example_ext [glo]" True
        "start fresh_store" used_store]
      delete_only_when_present[of "''RoW generation''" True "example_ext [glo]" False
        "start used_store" used_store]
    by simp
qed

text \<open>
  \<^bold>\<open>C9.\<close>  When one of the three databases gives an empty location set in the world in
  which the verification cell runs, the run does not end normally and does not call
  \<open>update_ecoinvent_definitions\<close>; stated for the two last cells from any state, and for
  the whole notebook, where the verification cell runs in the world the cells before it
  have left behind.
\<close>

theorem no_update_after_empty_locations:
  assumes "name \<in> set database_names"
  shows "(locations_in X name (world st) = Inr {} \<longrightarrow>
           fst (seq (cell_verify X) (cell_update X) st) \<noteq> Inr ()
           \<and> UpdateEcoinventDefinitions a
               \<notin> set (issued (seq (cell_verify X) (cell_update X)) st))
       \<and> (locations_in X name (world_at_verification X w) = Inr {} \<longrightarrow>
           fst (notebook X w) \<noteq> Inr ()
           \<and> UpdateEcoinventDefinitions a \<notin> set (calls (snd (notebook X w))))"
proof -
  have 1: "fst (seq (cell_verify X) (cell_update X) st) \<noteq> Inr ()
           \<and> UpdateEcoinventDefinitions a
               \<notin> set (issued (seq (cell_verify X) (cell_update X)) st)"
    if "locations_in X name (world st) = Inr {}"
    using failed_verification_stops[OF empty_locations_fail_verification[OF assms that]]
    by blast
  have 2: "fst (notebook X w) \<noteq> Inr ()
           \<and> UpdateEcoinventDefinitions a \<notin> set (calls (snd (notebook X w)))"
    if "locations_in X name (world_at_verification X w) = Inr {}"
  proof -
    have "fst (cell_verify X (snd (cells_before_verify delete X (start w)))) \<noteq> Inr ()"
      using that unfolding world_at_verification_def
      by (rule empty_locations_fail_verification[OF assms])
    from failed_verification_stops_notebook[OF this] show ?thesis by blast
  qed
  from 1 2 show ?thesis by blast
qed

theorem no_update_after_empty_locations_witness:
  "''ecoinvent-3.8-apos'' \<in> set database_names
   \<and> locations_in (example_ext []) ''ecoinvent-3.8-apos''
        (world (start (loaded_store []))) = Inr {}
   \<and> locations_in (example_ext []) ''ecoinvent-3.8-apos''
        (world_at_verification (example_ext []) used_store) = Inr {}
   \<and> fst (seq (cell_verify (example_ext [])) (cell_update (example_ext []))
            (start (loaded_store []))) \<noteq> Inr ()
   \<and> UpdateEcoinventDefinitions database_names
        \<notin> set (issued (seq (cell_verify (example_ext [])) (cell_update (example_ext [])))
                 (start (loaded_store [])))
   \<and> fst (notebook (example_ext []) used_store) \<noteq> Inr ()
   \<and> UpdateEcoinventDefinitions database_names
        \<notin> set (calls (snd (notebook (example_ext []) used_store)))"
proof -
  have n: "''ecoinvent-3.8-apos'' \<in> set database_names"
    by (simp add: database_names_def)
  have l: "locations_in (example_ext []) ''ecoinvent-3.8-apos''
        (world (start (loaded_store []))) = Inr {}"
    by (simp add: locations_in_def example_defs loaded_store_def start_def)
  have v: "locations_in (example_ext []) ''ecoinvent-3.8-apos''
        (world_at_verification (example_ext []) used_store) = Inr {}"
    by (simp add: locations_in_def world_at_verification_def cells_before_verify_def
          model_defs prog_defs example_defs)
  show ?thesis
    using n l v
      no_update_after_empty_locations[OF n, of "example_ext []" "start (loaded_store [])"
        database_names used_store]
    by blast
qed






end
